theory Spec2Isabelle
  imports Main "HOL-Library.Word" "HOL-Library.Multiset"
begin

section \<open>Data model\<close>

text \<open>
  The fixtures compute on C \<^verbatim>\<open>int\<close> values, which the specification fixes as 32-bit
  two's-complement integers: a value is a \<open>32 word\<close>, \<open>+\<close>, \<open>-\<close> and \<open>*\<close> wrap
  around, \<open>sint\<close> reads the signed value, and the C comparisons \<^verbatim>\<open><\<close>, \<^verbatim>\<open><=\<close> on
  \<^verbatim>\<open>int\<close> are the signed orders \<open><s\<close> and \<open>\<le>s\<close>. \<^verbatim>\<open>long long\<close> is a \<open>64 word\<close>.
\<close>

type_synonym int32 = "32 word"
type_synonym int64 = "64 word"

text \<open>
  Modelled from the spec: the macros \<^verbatim>\<open>INT_MAX\<close> and \<^verbatim>\<open>INT_MIN\<close> of the system header
  \<^verbatim>\<open><limits.h>\<close>, which test_overflow.c includes and the repository does not contain.
  For the 32-bit two's-complement \<^verbatim>\<open>int\<close> of the specification they are
  \<open>2 ^ 31 - 1\<close> and \<open>- 2 ^ 31\<close>.
\<close>

definition INT_MAX :: int32 where
  "INT_MAX = 2147483647"

definition INT_MIN :: int32 where
  "INT_MIN = - 2147483647 - 1"

text \<open>
  A fixture stops in one of three ways other than returning: an \<^verbatim>\<open>assert\<close> whose condition
  is false (recorded with the line of the assertion in its source file), an array access
  outside the array, or a loop-counter computation that leaves the range of \<^verbatim>\<open>int\<close>.
\<close>

datatype error = AssertionViolation nat | OutOfBounds | SignedOverflow

definition assert_c :: "nat \<Rightarrow> bool \<Rightarrow> error + unit" where
  "assert_c line cond = (if cond then Inr () else Inl (AssertionViolation line))"

text \<open>Sequencing of statements: the second runs only when the first did not stop.\<close>

definition then_c :: "error + unit \<Rightarrow> error + 'a \<Rightarrow> error + 'a" where
  "then_c s t = (case s of Inl e \<Rightarrow> Inl e | Inr u \<Rightarrow> t)"


section \<open>c2rtl-verify-mcp/examples/adder.c\<close>

definition add :: "int32 \<Rightarrow> int32 \<Rightarrow> int32" where
  "add a b = a + b"

text \<open>
  \<^verbatim>\<open>add_sat\<close>, with the C types of its constants written out.
  \<^item> \<^verbatim>\<open>(long long)a + (long long)b\<close>: both operands sign-extended to 64 bits.
  \<^item> \<^verbatim>\<open>0x7FFFFFFF\<close> fits \<^verbatim>\<open>int\<close>; in the comparison it is sign-extended to
    \<^verbatim>\<open>long long\<close>.
  \<^item> \<^verbatim>\<open>0x80000000\<close> does not fit a 32-bit \<^verbatim>\<open>int\<close>, so as a hexadecimal constant it has
    type \<^verbatim>\<open>unsigned int\<close>; the unary minus is taken in \<^verbatim>\<open>unsigned int\<close> (modulo
    \<open>2 ^ 32\<close>). In the comparison with a \<^verbatim>\<open>long long\<close> the unsigned value is
    zero-extended; in the \<^verbatim>\<open>return\<close> it is converted to \<^verbatim>\<open>int\<close> keeping its 32 bits.
  \<^item> \<^verbatim>\<open>(int)result\<close> keeps the low 32 bits.
\<close>

definition add_sat :: "int32 \<Rightarrow> int32 \<Rightarrow> int32" where
  "add_sat a b =
     (let result = (scast a :: int64) + (scast b :: int64) in
      if (scast (0x7FFFFFFF :: int32) :: int64) <s result then 0x7FFFFFFF
      else if result <s (ucast (- (0x80000000 :: 32 word)) :: int64)
        then - (0x80000000 :: 32 word)
      else ucast result)"


section \<open>cbmc-tests/test_overflow.c\<close>

definition add_overflow :: "int32 \<Rightarrow> int32 \<Rightarrow> int32" where
  "add_overflow a b = a + b"

definition safe_add :: "int32 \<Rightarrow> int32 \<Rightarrow> int32" where
  "safe_add a b =
     (if 0 <s a \<and> INT_MAX - a <s b then INT_MAX
      else if a <s 0 \<and> b <s INT_MIN - a then INT_MIN
      else a + b)"


section \<open>cbmc-mcp/test_cbmc.c\<close>

definition abs_value :: "int32 \<Rightarrow> int32" where
  "abs_value x = (if x <s 0 then - x else x)"


section \<open>cbmc-tests/test_equivalence.c and cbmc-mcp/examples/equivalence_harness.c\<close>

text \<open>
  Both files define \<^verbatim>\<open>abs_v1\<close> and \<^verbatim>\<open>abs_v2\<close> with the same text. The drivers declare
  \<^verbatim>\<open>int x\<close> without initialising it (an unconstrained input for the checker): \<open>x\<close> is
  the drivers' parameter here.
\<close>

definition abs_v1 :: "int32 \<Rightarrow> int32" where
  "abs_v1 x = (if x <s 0 then - x else x)"

definition abs_v2 :: "int32 \<Rightarrow> int32" where
  "abs_v2 x = (if x <s 0 then - x else x)"

definition test_equivalence :: "int32 \<Rightarrow> error + unit" where
  "test_equivalence x =
     (let result1 = abs_v1 x; result2 = abs_v2 x in assert_c 21 (result1 = result2))"

definition check_equivalence :: "int32 \<Rightarrow> error + unit" where
  "check_equivalence x =
     (let result1 = abs_v1 x; result2 = abs_v2 x in assert_c 23 (result1 = result2))"


section \<open>cbmc-tests/test_assertion.c\<close>

definition max_c :: "int32 \<Rightarrow> int32 \<Rightarrow> int32" where
  "max_c a b = (if b <s a then a else b)"

definition test_max :: "error + unit" where
  "test_max =
     then_c (assert_c 12 (max_c 5 3 = 5))
    (then_c (assert_c 13 (max_c 2 7 = 7))
    (then_c (assert_c 14 (max_c 4 4 = 4))
            (assert_c 17 (max_c (- 1) (- 2) = - 2))))"

definition main_test_assertion :: "error + int32" where
  "main_test_assertion = then_c test_max (Inr 0)"


section \<open>c2rtl-verify-mcp/examples/fir_filter.c\<close>

text \<open>
  \<^verbatim>\<open>fir_filter\<close> receives two array parameters, that is two pointers, and writes through
  one of them. What a call changes depends on where the two arrays lie, so memory is an
  explicit store: an address counts \<^verbatim>\<open>int\<close> cells, \<open>p + i\<close> is the address of
  \<^verbatim>\<open>p[i]\<close>, and the store gives the cell's content. Each parameter points to \<^verbatim>\<open>TAPS\<close>
  allocated cells, as its declared type \<^verbatim>\<open>int [TAPS]\<close> says, so every access of the
  function is to an allocated cell.
\<close>

type_synonym addr = nat
type_synonym heap = "addr \<Rightarrow> int32"

definition TAPS :: nat where
  "TAPS = 4"

text \<open>
  The first loop, \<^verbatim>\<open>for (i = TAPS-1; i > 0; i--) delay_line[i] = delay_line[i-1]\<close>, from
  the counter's current value \<open>i\<close>. The equation of a loop is unfolded one step at a
  time where a proof needs it, never by the simplifier on its own.
\<close>

fun fir_shift :: "addr \<Rightarrow> nat \<Rightarrow> heap \<Rightarrow> heap" where
  [simp del]: "fir_shift delay_line i h =
     (if 0 < i
      then fir_shift delay_line (i - 1) (h(delay_line + i := h (delay_line + (i - 1))))
      else h)"

text \<open>
  The second loop, \<^verbatim>\<open>for (i = 0; i < TAPS; i++) result += delay_line[i] * coeffs[i]\<close>;
  product and sum are 32-bit and wrap around.
\<close>

function fir_mac :: "addr \<Rightarrow> addr \<Rightarrow> heap \<Rightarrow> nat \<Rightarrow> int32 \<Rightarrow> int32" where
  [simp del]: "fir_mac coeffs delay_line h i result =
     (if i < TAPS
      then fir_mac coeffs delay_line h (i + 1) (result + h (delay_line + i) * h (coeffs + i))
      else result)"
  by pat_completeness auto
termination
  by (relation "measure (\<lambda>(coeffs, delay_line, h, i, result). TAPS - i)") auto

text \<open>
  The function returns its value and leaves the store changed. \<^verbatim>\<open>result >> 16\<close> on a
  signed \<^verbatim>\<open>int\<close> is the arithmetic shift \<open>signed_drop_bit\<close>.
\<close>

definition fir_filter :: "int32 \<Rightarrow> addr \<Rightarrow> addr \<Rightarrow> heap \<Rightarrow> int32 \<times> heap" where
  "fir_filter input coeffs delay_line h =
     (let result = 0;
          h = fir_shift delay_line (TAPS - 1) h;
          h = h(delay_line := input);
          result = fir_mac coeffs delay_line h 0 result
      in (signed_drop_bit 16 result, h))"

text \<open>
  Vocabulary for statements about the store: the \<open>n\<close> cells from \<open>p\<close> read as a
  sequence, a store holding a given sequence from address 0 (and 0 elsewhere), and two
  \<^verbatim>\<open>TAPS\<close>-cell arrays that do not overlap.
\<close>

definition read_array :: "heap \<Rightarrow> addr \<Rightarrow> nat \<Rightarrow> int32 list" where
  "read_array h p n = map (\<lambda>i. h (p + i)) [0..<n]"

definition heap_of :: "int32 list \<Rightarrow> heap" where
  "heap_of xs = (\<lambda>a. if a < length xs then xs ! a else 0)"

definition separate :: "addr \<Rightarrow> addr \<Rightarrow> bool" where
  "separate coeffs delay_line \<longleftrightarrow>
     coeffs + TAPS \<le> delay_line \<or> delay_line + TAPS \<le> coeffs"


section \<open>cbmc-mcp/examples/array_bounds.c\<close>

text \<open>
  The array is a list, and an access at an index that is not below its length stops the
  run with \<open>OutOfBounds\<close>. The counter \<open>i\<close> starts at 0 and is only incremented: it is
  a \<open>nat\<close>, compared with the signed value of \<^verbatim>\<open>size\<close>; \<^verbatim>\<open>i++\<close> at the largest
  \<^verbatim>\<open>int\<close> stops the run with \<open>SignedOverflow\<close>. The loop is
  \<^verbatim>\<open>for (i = 0; i <= size; i++) sum += arr[i]\<close>.
\<close>

function sum_array_loop :: "int32 list \<Rightarrow> int \<Rightarrow> nat \<Rightarrow> int32 \<Rightarrow> error + int32" where
  [simp del]: "sum_array_loop arr size_c i sum_c =
     (if int i \<le> size_c then
        (if length arr \<le> i then Inl OutOfBounds
         else if int i = 2147483647 then Inl SignedOverflow
         else sum_array_loop arr size_c (i + 1) (sum_c + arr ! i))
      else Inr sum_c)"
  by pat_completeness auto
termination
  by (relation "measure (\<lambda>(arr, size_c, i, sum_c). nat (size_c + 1 - int i))") auto

definition sum_array :: "int32 list \<Rightarrow> int32 \<Rightarrow> error + int32" where
  "sum_array arr size_c = (let sum_c = 0 in sum_array_loop arr (sint size_c) 0 sum_c)"

definition safe_array_access :: "error + unit" where
  "safe_array_access =
     (let arr = [1, 2, 3, 4, 5] in
      case sum_array arr 5 of
        Inl e \<Rightarrow> Inl e
      | Inr result \<Rightarrow> assert_c 15 (result = 15))"


section \<open>cbmc-mcp/examples/bubble_sort_v1.c\<close>

text \<open>
  The array is a list updated in place and returned. Both counters start at 0 and are
  only incremented: they are \<open>nat\<close>s, and the loop conditions \<^verbatim>\<open>i < n - 1\<close> and
  \<^verbatim>\<open>j < n - i - 1\<close> are evaluated on integers, since \<^verbatim>\<open>n\<close> may be 0 or negative. Inside
  the loops \<open>0 \<le> i < n - 1\<close> and \<open>0 \<le> j < n - i - 1\<close>, so no counter expression
  leaves the range of \<^verbatim>\<open>int\<close> there; the only one that can is \<^verbatim>\<open>n - 1\<close> at
  \<^verbatim>\<open>n = INT_MIN\<close>, checked on entry. The inner loop, from the counter's current value:
\<close>

function bubble_inner :: "int \<Rightarrow> nat \<Rightarrow> nat \<Rightarrow> int32 list \<Rightarrow> error + int32 list" where
  [simp del]: "bubble_inner n i j arr =
     (if int j < n - int i - 1 then
        (if length arr \<le> j + 1 then Inl OutOfBounds
         else bubble_inner n i (j + 1)
                (if arr ! (j + 1) <s arr ! j
                 then (let temp = arr ! j; arr = arr[j := arr ! (j + 1)]
                       in arr[j + 1 := temp])
                 else arr))
      else Inr arr)"
  by pat_completeness auto
termination
  by (relation "measure (\<lambda>(n, i, j, arr). nat (n - int i - 1 - int j))") auto

function bubble_outer :: "int \<Rightarrow> nat \<Rightarrow> int32 list \<Rightarrow> error + int32 list" where
  [simp del]: "bubble_outer n i arr =
     (if int i < n - 1 then
        (case bubble_inner n i 0 arr of
           Inl e \<Rightarrow> Inl e
         | Inr arr' \<Rightarrow> bubble_outer n (i + 1) arr')
      else Inr arr)"
  by pat_completeness auto
termination
  by (relation "measure (\<lambda>(n, i, arr). nat (n - 1 - int i))") auto

definition bubble_sort :: "int32 list \<Rightarrow> int32 \<Rightarrow> error + int32 list" where
  "bubble_sort arr n =
     (if n = INT_MIN then Inl SignedOverflow else bubble_outer (sint n) 0 arr)"

text \<open>The driver's loop \<^verbatim>\<open>for (i = 0; i < n - 1; i++) assert(arr[i] <= arr[i + 1])\<close>.\<close>

function test_sort_loop :: "int32 list \<Rightarrow> int \<Rightarrow> nat \<Rightarrow> error + unit" where
  [simp del]: "test_sort_loop arr n i =
     (if int i < n - 1 then
        (if length arr \<le> i + 1 then Inl OutOfBounds
         else then_c (assert_c 25 (arr ! i \<le>s arr ! (i + 1)))
                     (test_sort_loop arr n (i + 1)))
      else Inr ())"
  by pat_completeness auto
termination
  by (relation "measure (\<lambda>(arr, n, i). nat (n - 1 - int i))") auto

definition test_sort :: "error + unit" where
  "test_sort =
     (let arr = [5, 2, 8, 1, 9]; n = 5 in
      case bubble_sort arr n of
        Inl e \<Rightarrow> Inl e
      | Inr arr \<Rightarrow> test_sort_loop arr (sint n) 0)"

text \<open>
  The invariant of the outer loop: after \<open>i\<close> passes, each of the last \<open>i\<close> positions
  holds an element that is not below any element before it.
\<close>

definition settled :: "nat \<Rightarrow> int32 list \<Rightarrow> bool" where
  "settled i arr \<longleftrightarrow>
     (\<forall>q. length arr - i \<le> q \<and> q < length arr \<longrightarrow>
          (\<forall>p\<le>q. sint (arr ! p) \<le> sint (arr ! q)))"


section \<open>Signed arithmetic on 32-bit words\<close>

lemma sint32_bounds:
  "- 2147483648 \<le> sint (x :: int32)" "sint (x :: int32) \<le> 2147483647"
  using sint_ge [of x] sint_lt [of x] by simp_all

lemma sint_of_int32:
  "- 2147483648 \<le> k \<Longrightarrow> k \<le> 2147483647 \<Longrightarrow> sint (word_of_int k :: int32) = k"
  by (simp add: signed_of_int signed_take_bit_int_eq_self)

lemma sint_add32:
  assumes "- 2147483648 \<le> sint a + sint b" "sint a + sint b \<le> 2147483647"
  shows "sint (a + b :: int32) = sint a + sint b"
proof -
  have "a + b = word_of_int (sint a + sint b)" by simp
  then show ?thesis using assms by (simp only: sint_of_int32)
qed

lemma sint_sub32:
  assumes "- 2147483648 \<le> sint a - sint b" "sint a - sint b \<le> 2147483647"
  shows "sint (a - b :: int32) = sint a - sint b"
proof -
  have "a - b = word_of_int (sint a - sint b)" by simp
  then show ?thesis using assms by (simp only: sint_of_int32)
qed

lemma sint_INT_MAX: "sint INT_MAX = 2147483647"
  by (simp add: INT_MAX_def)

lemma sint_INT_MIN: "sint INT_MIN = - 2147483648"
  by (simp add: INT_MIN_def)

lemma sint_neg32:
  assumes "x \<noteq> INT_MIN"
  shows "sint (- x :: int32) = - sint x"
proof -
  have "sint x \<noteq> sint INT_MIN" using assms signed_word_eqI by blast
  then have ne: "sint x \<noteq> - 2147483648" by (simp add: sint_INT_MIN)
  have "- x = word_of_int (- sint x)" by simp
  then show ?thesis using ne sint32_bounds [of x] by (simp only: sint_of_int32)
qed

lemma sint_scast64: "sint (scast (a :: int32) :: int64) = sint a"
  by (simp add: sint_up_scast is_up)

lemma sint_sum64:
  "sint ((scast (a :: int32) :: int64) + scast (b :: int32)) = sint a + sint b"
  using sint32_bounds [of a] sint32_bounds [of b]
  by (simp add: sint_word_add sint_scast64 signed_take_bit_int_eq_self)


section \<open>The saturating adder\<close>

text \<open>
  Whatever the operands, the second comparison of \<^verbatim>\<open>add_sat\<close> is against
  \<open>2147483648\<close>, not \<open>- 2147483648\<close>: a sum that did not exceed \<^verbatim>\<open>INT_MAX\<close> is always
  below it, and the last \<^verbatim>\<open>return\<close> is never reached.
\<close>

lemma add_sat_bounds_as_compared:
  "sint (scast (0x7FFFFFFF :: int32) :: int64) = 2147483647"
  "sint (ucast (- (0x80000000 :: 32 word)) :: int64) = 2147483648"
  by simp_all

lemma add_sat_value:
  "sint (add_sat a b) =
     (if 2147483647 < sint a + sint b then 2147483647 else - 2147483648)"
  using sint32_bounds [of a] sint32_bounds [of b]
  by (simp add: add_sat_def Let_def word_sless_alt sint_sum64)

text \<open>
  Claim C1 says that \<^verbatim>\<open>add_sat(x, y)\<close> is the exact sum \<open>x + y\<close> clamped to
  \<open>[INT_MIN, INT_MAX]\<close>. The code does not do that: \<^verbatim>\<open>add_sat(1, 2)\<close> is \<^verbatim>\<open>INT_MIN\<close>,
  where the clamped sum is 3.
\<close>

theorem add_sat_1_2: "add_sat 1 2 = INT_MIN \<and> sint (add_sat 1 2) = - 2147483648"
  by (simp add: add_sat_def INT_MIN_def word_sless_alt)


section \<open>The overflow-safe adder\<close>

text \<open>
  Claim C5: for all 32-bit \<open>a\<close> and \<open>b\<close>, \<^verbatim>\<open>safe_add(a, b)\<close> is \<^verbatim>\<open>INT_MAX\<close> when the
  exact sum exceeds \<^verbatim>\<open>INT_MAX\<close>, \<^verbatim>\<open>INT_MIN\<close> when the exact sum is below \<^verbatim>\<open>INT_MIN\<close>,
  and the exact sum otherwise.
\<close>

theorem safe_add_saturates:
  "sint (safe_add a b) =
     (if 2147483647 < sint a + sint b then sint INT_MAX
      else if sint a + sint b < - 2147483648 then sint INT_MIN
      else sint a + sint b)"
proof -
  have pos: "0 < sint a \<Longrightarrow> sint (INT_MAX - a) = 2147483647 - sint a"
    using sint32_bounds [of a] by (simp add: sint_sub32 sint_INT_MAX)
  have neg: "sint a < 0 \<Longrightarrow> sint (INT_MIN - a) = - 2147483648 - sint a"
    using sint32_bounds [of a] by (simp add: sint_sub32 sint_INT_MIN)
  show ?thesis
    using sint32_bounds [of a] sint32_bounds [of b]
    by (auto simp: safe_add_def word_sless_alt pos neg sint_INT_MAX sint_INT_MIN sint_add32)
qed


section \<open>Absolute value\<close>

text \<open>
  Claim C7: for every 32-bit \<open>x\<close> other than \<^verbatim>\<open>INT_MIN\<close>, \<^verbatim>\<open>abs_value(x)\<close> is not
  negative and is \<open>x\<close> or \<open>- x\<close>; \<^verbatim>\<open>abs_value(-10)\<close> is 10 and \<^verbatim>\<open>abs_value(0)\<close> is 0.
\<close>

theorem abs_value_magnitude:
  "(x \<noteq> INT_MIN \<longrightarrow>
      0 \<le> sint (abs_value x) \<and>
      (sint (abs_value x) = sint x \<or> sint (abs_value x) = - sint x)) \<and>
   abs_value (- 10) = 10 \<and> abs_value 0 = 0"
proof -
  have "x \<noteq> INT_MIN \<Longrightarrow> sint (abs_value x) = \<bar>sint x\<bar>"
    by (simp add: abs_value_def word_sless_alt sint_neg32)
  moreover have "abs_value (- 10) = 10" "abs_value 0 = 0"
    by (simp_all add: abs_value_def word_sless_alt)
  ultimately show ?thesis by auto
qed

theorem abs_value_magnitude_witness:
  "(- 7 :: int32) \<noteq> INT_MIN \<and> 0 \<le> sint (abs_value (- 7)) \<and>
   (sint (abs_value (- 7)) = sint (- 7 :: int32) \<or>
    sint (abs_value (- 7)) = - sint (- 7 :: int32)) \<and>
   abs_value (- 7) = 7"
proof -
  have ne: "(- 7 :: int32) \<noteq> INT_MIN" by (simp add: INT_MIN_def)
  have val: "abs_value (- 7) = 7" by (simp add: abs_value_def word_sless_alt)
  show ?thesis using ne val abs_value_magnitude [of "- 7"] by blast
qed

text \<open>
  Claim C4: for every 32-bit \<open>x\<close>, \<^verbatim>\<open>INT_MIN\<close> included, \<^verbatim>\<open>abs_v1(x)\<close> and
  \<^verbatim>\<open>abs_v2(x)\<close> are the same word, so the assertion of both equivalence drivers holds
  for every value of their input.
\<close>

theorem abs_v1_v2_equivalent:
  "abs_v1 x = abs_v2 x \<and> test_equivalence x = Inr () \<and> check_equivalence x = Inr () \<and>
   abs_v1 INT_MIN = INT_MIN \<and> abs_v2 INT_MIN = INT_MIN"
  by (simp add: abs_v1_def abs_v2_def test_equivalence_def check_equivalence_def assert_c_def
      INT_MIN_def)


section \<open>Maximum and its driver\<close>

text \<open>
  Claim C8: for all 32-bit \<open>x\<close> and \<open>y\<close>, \<^verbatim>\<open>max(x, y)\<close> is at least \<open>x\<close>, at least
  \<open>y\<close>, and one of the two; \<^verbatim>\<open>max(5, 3) = 5\<close>, \<^verbatim>\<open>max(2, 7) = 7\<close>, \<^verbatim>\<open>max(4, 4) = 4\<close>.
\<close>

theorem max_c_greatest:
  "sint x \<le> sint (max_c x y) \<and> sint y \<le> sint (max_c x y) \<and>
   (max_c x y = x \<or> max_c x y = y) \<and>
   max_c 5 3 = 5 \<and> max_c 2 7 = 7 \<and> max_c 4 4 = 4"
  by (simp add: max_c_def word_sless_alt)

text \<open>
  Claim C9: the driver \<^verbatim>\<open>test_max\<close> passes its first three assertions (lines 12 to 14)
  and stops at the fourth (line 17), because \<^verbatim>\<open>max(-1, -2)\<close> is \<open>- 1\<close> and the assertion
  asks for \<open>- 2\<close>; so \<^verbatim>\<open>main\<close> of test_assertion.c does not return normally.
\<close>

theorem test_max_fails_at_fourth:
  "assert_c 12 (max_c 5 3 = 5) = Inr () \<and>
   assert_c 13 (max_c 2 7 = 7) = Inr () \<and>
   assert_c 14 (max_c 4 4 = 4) = Inr () \<and>
   max_c (- 1) (- 2) = - 1 \<and>
   test_max = Inl (AssertionViolation 17) \<and>
   main_test_assertion = Inl (AssertionViolation 17)"
  by (simp add: main_test_assertion_def test_max_def then_c_def assert_c_def max_c_def
      word_sless_alt)


section \<open>Array summation\<close>

text \<open>
  With \<^verbatim>\<open>size\<close> equal to the length of the array, the loop condition \<^verbatim>\<open>i <= size\<close>
  lets the counter reach the length, and the read at that index is outside the array,
  whatever the array holds.
\<close>

lemma sum_array_loop_overrun:
  assumes "size_c = int (length arr)" "i \<le> length arr" "length arr \<le> 2147483647"
  shows "sum_array_loop arr size_c i sum_c = Inl OutOfBounds"
  using assms
proof (induction arr size_c i sum_c rule: sum_array_loop.induct)
  case (1 arr size_c i sum_c)
  show ?case
  proof (cases "i = length arr")
    case True
    with "1.prems" show ?thesis by (subst sum_array_loop.simps) simp
  next
    case False
    with "1.prems" have lt: "i < length arr" "int i \<noteq> 2147483647" by simp_all
    with "1.prems" have "sum_array_loop arr size_c (i + 1) (sum_c + arr ! i) = Inl OutOfBounds"
      by (intro "1.IH") simp_all
    with lt "1.prems" show ?thesis by (subst sum_array_loop.simps) simp
  qed
qed


lemma sum_array_overrun:
  assumes "sint size_c = int (length arr)"
  shows "sum_array arr size_c = Inl OutOfBounds"
proof -
  have "length arr \<le> 2147483647" using assms sint32_bounds(2) [of size_c] by simp
  with assms show ?thesis by (simp add: sum_array_def sum_array_loop_overrun)
qed

text \<open>
  Claim C2 says that, with \<open>N\<close> the length of \<open>s\<close>, \<^verbatim>\<open>sum_array(s, N)\<close> reads only
  indices inside \<open>s\<close> and returns the sum of its \<open>N\<close> elements, 15 for
  \<open>[1, 2, 3, 4, 5]\<close>, so that the assertion of \<^verbatim>\<open>safe_array_access\<close> holds. The code
  reads \<^verbatim>\<open>arr[5]\<close> of the five-element array, a cell outside the array: the run is
  recorded as \<open>OutOfBounds\<close> at that read, in the function and in the driver.
\<close>

theorem sum_array_reads_past_end:
  "sum_array [1, 2, 3, 4, 5] 5 = Inl OutOfBounds \<and> safe_array_access = Inl OutOfBounds"
  by (simp add: safe_array_access_def sum_array_def sum_array_loop.simps)


section \<open>Bubble sort\<close>

text \<open>
  One pass of the inner loop, started at \<open>j\<close> with the largest element of the first
  \<open>j + 1\<close> positions at position \<open>j\<close>: it returns, keeps the length and the
  elements, leaves the last \<open>i\<close> positions alone and carries the largest element of
  the rest to position \<open>length arr - i - 1\<close>.
\<close>

lemma bubble_inner_correct:
  assumes "n = int (length arr)" "j + i + 1 \<le> length arr"
    and "\<forall>p<j. sint (arr ! p) \<le> sint (arr ! j)"
  shows "\<exists>res. bubble_inner n i j arr = Inr res \<and> length res = length arr \<and>
           mset res = mset arr \<and> drop (length arr - i) res = drop (length arr - i) arr \<and>
           (\<forall>p<length arr - i - 1. sint (res ! p) \<le> sint (res ! (length arr - i - 1)))"
  using assms
proof (induction n i j arr rule: bubble_inner.induct)
  case (1 n i j arr)
  show ?case
  proof (cases "int j < n - int i - 1")
    case False
    with "1.prems" have j: "j = length arr - i - 1" by simp
    have "bubble_inner n i j arr = Inr arr"
      using False by (subst bubble_inner.simps) simp
    with j "1.prems" show ?thesis by simp
  next
    case True
    define arr' where "arr' =
      (if arr ! (j + 1) <s arr ! j
       then (let temp = arr ! j; arr = arr[j := arr ! (j + 1)] in arr[j + 1 := temp])
       else arr)"
    from True "1.prems" have jb: "j + 1 < length arr - i" "j + 1 < length arr" "j < length arr"
      by simp_all
    have len: "length arr' = length arr" by (simp add: arr'_def Let_def)
    have ms: "mset arr' = mset arr"
      using jb by (simp add: arr'_def Let_def mset_swap)
    have dr: "drop (length arr - i) arr' = drop (length arr - i) arr"
      using jb by (simp add: arr'_def Let_def)
    have inv: "\<forall>p<j + 1. sint (arr' ! p) \<le> sint (arr' ! (j + 1))"
    proof (intro allI impI)
      fix p assume "p < j + 1"
      then consider "p < j" | "p = j" by linarith
      then show "sint (arr' ! p) \<le> sint (arr' ! (j + 1))"
      proof cases
        case 1
        then have "sint (arr ! p) \<le> sint (arr ! j)" using "1.prems" by simp
        with 1 jb show ?thesis by (auto simp: arr'_def Let_def word_sless_alt)
      next
        case 2
        with jb show ?thesis by (auto simp: arr'_def Let_def word_sless_alt)
      qed
    qed
    have step: "bubble_inner n i j arr = bubble_inner n i (j + 1) arr'"
      using True jb by (subst bubble_inner.simps) (simp add: arr'_def)
    have "\<not> length arr \<le> j + 1" using jb by simp
    note IH = "1.IH" [OF True this, folded arr'_def]
    have "n = int (length arr')" "j + 1 + i + 1 \<le> length arr'"
      using "1.prems" jb len by simp_all
    from IH [OF this inv] len ms dr step show ?thesis by auto
  qed
qed

lemma prefix_perm:
  assumes "mset res = mset arr" "drop k res = drop k arr"
  shows "set (take k res) = set (take k arr)"
proof -
  have "mset (take k res) + mset (drop k res) = mset (take k arr) + mset (drop k arr)"
    using assms(1) by (simp flip: mset_append)
  then have "mset (take k res) = mset (take k arr)" using assms(2) by simp
  then show ?thesis by (rule mset_eq_setD)
qed

lemma settled_step:
  assumes inv: "settled i arr" and i: "i + 1 < length arr"
    and len: "length res = length arr" and ms: "mset res = mset arr"
    and dr: "drop (length arr - i) res = drop (length arr - i) arr"
    and top: "\<forall>p<length arr - i - 1. sint (res ! p) \<le> sint (res ! (length arr - i - 1))"
  shows "settled (i + 1) res"
  unfolding settled_def
proof (intro allI impI)
  fix q p assume q: "length res - (i + 1) \<le> q \<and> q < length res" and p: "p \<le> q"
  show "sint (res ! p) \<le> sint (res ! q)"
  proof (cases "q = length arr - i - 1")
    case True
    with top p show ?thesis by (cases "p = q") auto
  next
    case False
    with q len i have qk: "length arr - i \<le> q" "q < length arr" by auto
    have rq: "res ! q = arr ! q"
    proof -
      have "res ! q = drop (length arr - i) res ! (q - (length arr - i))"
        using qk len by simp
      also have "\<dots> = arr ! q" using qk by (simp add: dr)
      finally show ?thesis .
    qed
    show ?thesis
    proof (cases "p < length arr - i")
      case True
      then have "res ! p \<in> set (take (length arr - i) res)"
        using len by (auto simp: in_set_conv_nth intro!: exI [of _ p])
      then have "res ! p \<in> set (take (length arr - i) arr)"
        using prefix_perm [OF ms dr] by simp
      then obtain p' where p': "p' < length arr - i" "arr ! p' = res ! p"
        by (auto simp: in_set_conv_nth)
      with qk have "p' \<le> q" by simp
      with inv qk have "sint (arr ! p') \<le> sint (arr ! q)"
        unfolding settled_def by blast
      with p' rq show ?thesis by simp
    next
      case False
      then have pk: "length arr - i \<le> p" "p < length arr" using p qk by auto
      have "res ! p = drop (length arr - i) res ! (p - (length arr - i))"
        using pk len by simp
      also have "\<dots> = arr ! p" using pk by (simp add: dr)
      finally have rp: "res ! p = arr ! p" .
      from inv qk p have "sint (arr ! p) \<le> sint (arr ! q)"
        unfolding settled_def by blast
      with rp rq show ?thesis by simp
    qed
  qed
qed

lemma settled_sorted:
  assumes "settled i arr" "length arr \<le> i + 1"
  shows "sorted (map sint arr)"
  unfolding sorted_iff_nth_mono
proof (intro allI impI)
  fix p q assume pq: "p \<le> q" "q < length (map sint arr)"
  show "map sint arr ! p \<le> map sint arr ! q"
  proof (cases "p = q")
    case True then show ?thesis by simp
  next
    case False
    with pq assms(2) have "length arr - i \<le> q" "q < length arr" by auto
    with assms(1) pq show ?thesis by (auto simp: settled_def)
  qed
qed

lemma bubble_outer_correct:
  assumes "n = int (length arr)" "settled i arr"
  shows "\<exists>res. bubble_outer n i arr = Inr res \<and> mset res = mset arr \<and> sorted (map sint res)"
  using assms
proof (induction n i arr rule: bubble_outer.induct)
  case (1 n i arr)
  show ?case
  proof (cases "int i < n - 1")
    case False
    then have "bubble_outer n i arr = Inr arr"
      by (subst bubble_outer.simps) simp
    moreover from False "1.prems" have "length arr \<le> i + 1" by simp
    ultimately show ?thesis using settled_sorted "1.prems" by blast
  next
    case True
    with "1.prems" have i: "i + 1 < length arr" by simp
    obtain res where res: "bubble_inner n i 0 arr = Inr res" "length res = length arr"
      "mset res = mset arr" "drop (length arr - i) res = drop (length arr - i) arr"
      "\<forall>p<length arr - i - 1. sint (res ! p) \<le> sint (res ! (length arr - i - 1))"
      using bubble_inner_correct [of n arr 0 i] "1.prems" i by auto
    have "settled (i + 1) res"
      using settled_step [OF "1.prems"(2) i res(2-5)] .
    moreover have "n = int (length res)" using "1.prems" res by simp
    ultimately obtain out where out: "bubble_outer n (i + 1) res = Inr out"
      "mset out = mset res" "sorted (map sint out)"
      using "1.IH" [OF True res(1)] by blast
    have "bubble_outer n i arr = bubble_outer n (i + 1) res"
      using True res(1) by (subst bubble_outer.simps) simp
    with out res show ?thesis by simp
  qed
qed

lemma bubble_sort_correct:
  assumes "sint n = int (length s)"
  shows "\<exists>r. bubble_sort s n = Inr r \<and> sorted_wrt word_sle r \<and> mset r = mset s"
proof -
  have "n \<noteq> INT_MIN" using assms by (auto simp: INT_MIN_def)
  moreover have "settled 0 s" by (simp add: settled_def)
  ultimately obtain r where r: "bubble_sort s n = Inr r" "mset r = mset s"
      "sorted (map sint r)"
    using bubble_outer_correct [of "sint n" s 0] assms by (auto simp: bubble_sort_def)
  have "word_sle = (\<lambda>a b :: int32. sint a \<le> sint b)"
    by (intro ext) (simp add: word_sle_eq)
  with r(3) have "sorted_wrt word_sle r" by (simp add: sorted_map)
  with r show ?thesis by blast
qed

lemma bubble_sort_example: "bubble_sort [5, 2, 8, 1, 9] 5 = Inr [1, 2, 5, 8, 9]"
  by (simp add: bubble_sort_def INT_MIN_def word_sless_alt bubble_inner.simps
      bubble_outer.simps)

lemma test_sort_passes: "test_sort = Inr ()"
  by (simp add: test_sort_def bubble_sort_example then_c_def assert_c_def word_sle_eq
      test_sort_loop.simps)

text \<open>
  Claim C3: for every sequence \<open>s\<close> of 32-bit integers and \<open>n\<close> equal to its length,
  \<^verbatim>\<open>bubble_sort(s, n)\<close> completes and leaves a non-decreasing permutation of \<open>s\<close>;
  \<^verbatim>\<open>bubble_sort([5,2,8,1,9], 5)\<close> leaves \<open>[1,2,5,8,9]\<close> (and the assertions of the driver
  \<^verbatim>\<open>test_sort\<close> hold).
\<close>

theorem bubble_sort_sorts:
  "(sint n = int (length s) \<longrightarrow>
      (\<exists>r. bubble_sort s n = Inr r \<and> sorted_wrt word_sle r \<and> mset r = mset s)) \<and>
   bubble_sort [5, 2, 8, 1, 9] 5 = Inr [1, 2, 5, 8, 9] \<and> test_sort = Inr ()"
  using bubble_sort_correct [of n s] bubble_sort_example test_sort_passes by blast

theorem bubble_sort_sorts_witness:
  "sint (3 :: int32) = int (length [3, - 1, 2 :: int32]) \<and>
   bubble_sort [3, - 1, 2] 3 = Inr [- 1, 2, 3] \<and>
   sorted_wrt word_sle [- 1, 2, 3 :: int32] \<and>
   mset [- 1, 2, 3 :: int32] = mset [3, - 1, 2]"
proof -
  have n: "sint (3 :: int32) = int (length [3, - 1, 2 :: int32])" by simp
  have run: "bubble_sort [3, - 1, 2] 3 = Inr [- 1, 2, 3]"
    by (simp add: bubble_sort_def INT_MIN_def word_sless_alt bubble_inner.simps
        bubble_outer.simps)
  from bubble_sort_sorts [of 3 "[3, - 1, 2]"] n
  obtain r where "bubble_sort [3, - 1, 2] 3 = Inr r" "sorted_wrt word_sle r"
      "mset r = mset [3, - 1, 2]"
    by blast
  with run n show ?thesis by simp
qed


section \<open>The FIR filter tap\<close>

text \<open>What the two loops compute, for any number of taps.\<close>

lemma fir_shift_0: "fir_shift delay_line 0 h = h"
  by (subst fir_shift.simps) simp

lemma fir_shift_Suc:
  "fir_shift delay_line (Suc i) h =
     fir_shift delay_line i (h(delay_line + Suc i := h (delay_line + i)))"
  by (subst fir_shift.simps) simp

lemma fir_shift_outside:
  "a \<le> delay_line \<or> delay_line + i < a \<Longrightarrow> fir_shift delay_line i h a = h a"
  by (induction i arbitrary: h) (auto simp: fir_shift_0 fir_shift_Suc)

lemma fir_shift_inside:
  "0 < k \<Longrightarrow> k \<le> i \<Longrightarrow> fir_shift delay_line i h (delay_line + k) = h (delay_line + k - 1)"
proof (induction i arbitrary: h)
  case 0
  then show ?case by simp
next
  case (Suc i)
  show ?case
  proof (cases "k = Suc i")
    case True
    then show ?thesis by (simp add: fir_shift_Suc fir_shift_outside)
  next
    case False
    with Suc.prems have ki: "k \<le> i" by simp
    with Suc.prems have ne: "delay_line + k - 1 \<noteq> delay_line + Suc i" by arith
    have "fir_shift delay_line (Suc i) h (delay_line + k) =
        (h(delay_line + Suc i := h (delay_line + i))) (delay_line + k - 1)"
      unfolding fir_shift_Suc by (rule Suc.IH [OF Suc.prems(1) ki])
    with ne show ?thesis by simp
  qed
qed


lemma fir_filter_heap:
  "snd (fir_filter input coeffs delay_line h) a =
     (if a = delay_line then input
      else if delay_line < a \<and> a < delay_line + TAPS then h (a - 1) else h a)"
proof (cases "delay_line < a \<and> a < delay_line + TAPS")
  case True
  define k where "k = a - delay_line"
  with True have k: "a = delay_line + k" "0 < k" "k \<le> TAPS - 1" by auto
  then have "fir_shift delay_line (TAPS - 1) h a = h (a - 1)"
    by (simp add: fir_shift_inside)
  with True show ?thesis
    by (simp add: fir_filter_def Let_def)
next
  case False
  then show ?thesis
    by (auto simp: fir_filter_def Let_def fir_shift_outside TAPS_def)
qed


lemma fir_filter_coeffs_kept:
  assumes "separate coeffs delay_line" "k < TAPS"
  shows "snd (fir_filter input coeffs delay_line h) (coeffs + k) = h (coeffs + k)"
  using assms by (auto simp: fir_filter_heap separate_def)




text \<open>
  Claim C10 says that for every coefficient sequence and delay line the coefficient
  sequence is the same after a call as before. That fails when the two parameters
  overlap: with the same four-cell array \<open>[1, 2, 3, 4]\<close> passed for both, the
  coefficient cells hold \<open>[9, 1, 2, 3]\<close> after \<^verbatim>\<open>fir_filter(9, a, a)\<close>.
\<close>

theorem fir_filter_aliased_coeffs:
  "read_array (heap_of [1, 2, 3, 4]) 0 TAPS = [1, 2, 3, 4] \<and>
   read_array (snd (fir_filter 9 0 0 (heap_of [1, 2, 3, 4]))) 0 TAPS = [9, 1, 2, 3] \<and>
   read_array (snd (fir_filter 9 0 0 (heap_of [1, 2, 3, 4]))) 0 TAPS \<noteq>
     read_array (heap_of [1, 2, 3, 4]) 0 TAPS"
  by (simp add: fir_filter_heap read_array_def heap_of_def TAPS_def upt_rec)

text \<open>
  Claim C10, amended: a call of \<^verbatim>\<open>fir_filter\<close> changes no cell outside the delay
  line's \<^verbatim>\<open>TAPS\<close> cells; so when the coefficient array and the delay line do not
  overlap, the coefficient sequence after the call is element for element the one before.
\<close>

theorem fir_filter_frame:
  "fir_filter x coeffs delay_line h = (r, h') \<Longrightarrow>
     (\<forall>a. a < delay_line \<or> delay_line + TAPS \<le> a \<longrightarrow> h' a = h a) \<and>
     (separate coeffs delay_line \<longrightarrow> read_array h' coeffs TAPS = read_array h coeffs TAPS)"
proof -
  assume run: "fir_filter x coeffs delay_line h = (r, h')"
  then have h': "h' = snd (fir_filter x coeffs delay_line h)" by simp
  have "\<forall>a. a < delay_line \<or> delay_line + TAPS \<le> a \<longrightarrow> h' a = h a"
    by (auto simp: h' fir_filter_heap TAPS_def)
  moreover have "read_array h' coeffs TAPS = read_array h coeffs TAPS"
    if "separate coeffs delay_line"
    by (simp add: read_array_def h' fir_filter_coeffs_kept [OF that])
  ultimately show ?thesis by blast
qed

theorem fir_filter_frame_witness:
  "separate 0 4 \<and> ((9 :: nat) < 4 \<or> 4 + TAPS \<le> 9) \<and>
   read_array (snd (fir_filter 20 0 4 (heap_of [1, 2, 3, 4, 5, 6, 7, 8, 9, 10]))) 0 TAPS
     = [1, 2, 3, 4] \<and>
   snd (fir_filter 20 0 4 (heap_of [1, 2, 3, 4, 5, 6, 7, 8, 9, 10])) 9 = 10"
proof -
  define h where "h = heap_of [1, 2, 3, 4, 5, 6, 7, 8, 9, 10]"
  define r where "r = fst (fir_filter 20 0 4 h)"
  define h' where "h' = snd (fir_filter 20 0 4 h)"
  have run: "fir_filter 20 0 4 h = (r, h')" by (simp add: r_def h'_def)
  have sep: "separate 0 4" by (simp add: separate_def TAPS_def)
  have out: "(9 :: nat) < 4 \<or> 4 + TAPS \<le> 9" by (simp add: TAPS_def)
  note frame = fir_filter_frame [OF run]
  from frame out have "h' 9 = h 9" by blast
  then have a: "h' 9 = 10" by (simp add: h_def heap_of_def)
  from frame sep have "read_array h' 0 TAPS = read_array h 0 TAPS" by blast
  then have b: "read_array h' 0 TAPS = [1, 2, 3, 4]"
    by (simp add: read_array_def h_def heap_of_def TAPS_def upt_rec)
  from sep out a b show ?thesis by (simp add: h'_def h_def)
qed


end
